theory Spec2Isabelle
  imports Main "HOL-Library.Word" "HOL-Library.Monad_Syntax" "HOL-Library.Sublist"
begin

unbundle bit_operations_syntax

section \<open>The hasher of supersonic/base/infrastructure/hasher.h\<close>

text \<open>
  The header works on C++ fixed-width integers: \<open>uint64\<close> and \<open>size_t\<close> are \<open>64 word\<close>,
  \<open>uint32\<close> is \<open>32 word\<close>, \<open>uint8\<close> and the raw bytes of memory are \<open>8 word\<close>; \<open>+\<close>,
  \<open>-\<close> and \<open>*\<close> wrap around as in C++. The \<open>int\<close> arguments (\<open>shift\<close> of \<open>Rotate\<close>,
  \<open>len\<close> of \<open>LoadBytes\<close>) are HOL integers.

  A \<open>const char *\<close> is an offset (an \<open>int\<close>, so that a pointer before the region is
  representable) into the region of memory the caller made readable, a list of bytes.
  Every function that reads memory or shifts by a variable amount returns an \<open>option\<close>:
  \<open>None\<close> is the undefined behaviour of C++ (a read outside the readable region, a
  shift by a negative amount or by 64 and more).
\<close>

type_synonym uint8 = "8 word"
type_synonym uint32 = "32 word"
type_synonym uint64 = "64 word"
type_synonym size_t = "64 word"
type_synonym buffer = "uint8 list"

subsection \<open>Memory\<close>

definition read_bytes :: "buffer \<Rightarrow> int \<Rightarrow> nat \<Rightarrow> uint8 list option" where
  "read_bytes mem p n =
     (if 0 \<le> p \<and> p + int n \<le> int (length mem) then Some (take n (drop (nat p) mem)) else None)"

text \<open>Direct indexing \<open>p[0]\<close> of a \<open>const char *\<close>: the raw byte at the offset.\<close>

definition byte_at :: "buffer \<Rightarrow> int \<Rightarrow> uint8 option" where
  "byte_at mem p = (if 0 \<le> p \<and> p < int (length mem) then Some (mem ! nat p) else None)"

text \<open>The value of a byte sequence read least significant byte first.\<close>

fun le_word :: "uint8 list \<Rightarrow> 'a::len word" where
  "le_word [] = 0"
| "le_word (b # bs) = ucast b OR push_bit 8 (le_word bs)"

text \<open>
  Modelled from the spec: the macros \<open>UNALIGNED_LOAD64\<close> and \<open>UNALIGNED_LOAD32\<close> are
  not in the header. With \<open>uint64_in_expected_order\<close> (the identity on a little-endian
  host, \<open>bswap_64\<close> on a big-endian one) the spec's Byte Loader returns the 8 (or 4)
  bytes at the offset as an unsigned integer in little-endian order on every host.
\<close>

definition Fetch64 :: "buffer \<Rightarrow> int \<Rightarrow> uint64 option" where
  "Fetch64 mem p = map_option le_word (read_bytes mem p 8)"

definition Fetch32 :: "buffer \<Rightarrow> int \<Rightarrow> uint32 option" where
  "Fetch32 mem p = map_option le_word (read_bytes mem p 4)"

text \<open>
  Modelled from the spec: \<open>bswap_64\<close> is not in the header; it is the byte-order
  reversal of a 64-bit value.
\<close>

definition bswap_64 :: "uint64 \<Rightarrow> uint64" where
  "bswap_64 x = le_word (rev (map (\<lambda>i. ucast (drop_bit (8 * i) x)) [0..<8]))"

subsection \<open>Constants and mixing primitives\<close>

definition k0 :: uint64 where "k0 = 0xc3a5c85c97cb3127"
definition k1 :: uint64 where "k1 = 0xb492b66fbe98f273"
definition k2 :: uint64 where "k2 = 0x9ae16a3b2f90404f"

definition ShiftMix :: "uint64 \<Rightarrow> uint64" where
  "ShiftMix val = val XOR drop_bit 47 val"

text \<open>
  The shift operators of C++ on a \<open>uint64\<close> with an \<open>int\<close> amount: undefined for a
  negative amount and for an amount of 64 or more.
\<close>

definition shr64 :: "uint64 \<Rightarrow> int \<Rightarrow> uint64 option" where
  "shr64 val n = (if 0 \<le> n \<and> n < 64 then Some (drop_bit (nat n) val) else None)"

definition shl64 :: "uint64 \<Rightarrow> int \<Rightarrow> uint64 option" where
  "shl64 val n = (if 0 \<le> n \<and> n < 64 then Some (push_bit (nat n) val) else None)"

definition Rotate :: "uint64 \<Rightarrow> int \<Rightarrow> uint64 option" where
  "Rotate val shift =
     (if shift = 0 then Some val
      else do {
        hi \<leftarrow> shr64 val shift;
        lo \<leftarrow> shl64 val (64 - shift);
        Some (hi OR lo)
      })"

text \<open>
  Modelled from the spec: the class \<open>uint128\<close> and its accessors are not in the header;
  \<open>uint128(u, v)\<close> is the 128-bit value with high half \<open>u\<close> and low half \<open>v\<close>.
\<close>

record uint128 =
  hi64 :: uint64
  lo64 :: uint64

definition mk_uint128 :: "uint64 \<Rightarrow> uint64 \<Rightarrow> uint128" where
  "mk_uint128 high low = \<lparr>hi64 = high, lo64 = low\<rparr>"

definition Uint128Low64 :: "uint128 \<Rightarrow> uint64" where
  "Uint128Low64 x = lo64 x"

definition Uint128High64 :: "uint128 \<Rightarrow> uint64" where
  "Uint128High64 x = hi64 x"

definition Hash128to64 :: "uint128 \<Rightarrow> uint64" where
  "Hash128to64 x =
     (let kMul = 0x9ddfea08eb382d69;
          a = (Uint128Low64 x XOR Uint128High64 x) * kMul;
          a = a XOR drop_bit 47 a;
          b = (Uint128High64 x XOR a) * kMul;
          b = b XOR drop_bit 47 b;
          b = b * kMul
      in b)"

text \<open>The two overloads of \<open>HashLen16\<close>: the one with the fixed multiplier keeps the name.\<close>

definition HashLen16 :: "uint64 \<Rightarrow> uint64 \<Rightarrow> uint64" where
  "HashLen16 u v = Hash128to64 (mk_uint128 u v)"

definition HashLen16_mul :: "uint64 \<Rightarrow> uint64 \<Rightarrow> uint64 \<Rightarrow> uint64" where
  "HashLen16_mul u v mul =
     (let a = (u XOR v) * mul;
          a = a XOR drop_bit 47 a;
          b = (v XOR a) * mul;
          b = b XOR drop_bit 47 b;
          b = b * mul
      in b)"

subsection \<open>LoadBytes\<close>

text \<open>
  \<open>buf[len]\<close> is a plain \<open>char\<close>, and C++ leaves to the platform whether plain \<open>char\<close>
  is signed (it is on x86-64 with gcc and clang). In \<open>(val << 8) | buf[len]\<close> the
  \<open>char\<close> is promoted to \<open>int\<close> and then converted to \<open>uint64\<close>: a signed \<open>char\<close> is
  sign-extended, an unsigned one zero-extended. The platform's choice is the parameter
  \<open>char_signed\<close>.
\<close>

definition char_to_uint64 :: "bool \<Rightarrow> uint8 \<Rightarrow> uint64" where
  "char_to_uint64 char_signed c = (if char_signed then scast c else ucast c)"

text \<open>
  The do-while loop of \<open>LoadBytes\<close>, entered after the first \<open>--len\<close>: one call is one
  execution of the body followed by the test \<open>--len >= 0\<close>.
\<close>

function LoadBytes_loop :: "bool \<Rightarrow> buffer \<Rightarrow> int \<Rightarrow> uint64 \<Rightarrow> int \<Rightarrow> uint64 option" where
  "LoadBytes_loop char_signed mem buf val len =
     (case byte_at mem (buf + len) of
        None \<Rightarrow> None
      | Some c \<Rightarrow>
          (let val = push_bit 8 val OR char_to_uint64 char_signed c
           in if len - 1 \<ge> 0 then LoadBytes_loop char_signed mem buf val (len - 1)
              else Some val))"
  by pat_completeness auto
termination
  by (relation "measure (\<lambda>(cs, mem, buf, val, len). nat len)") auto

text \<open>\<open>DCHECK_LT(len, 9)\<close> is compiled out of release builds: it is no branch of the model.\<close>

definition LoadBytes :: "bool \<Rightarrow> buffer \<Rightarrow> int \<Rightarrow> int \<Rightarrow> uint64 option" where
  "LoadBytes char_signed mem buf len = LoadBytes_loop char_signed mem buf 0 (len - 1)"

subsection \<open>Small-input hashers\<close>

definition HashLen0to16 :: "buffer \<Rightarrow> int \<Rightarrow> size_t \<Rightarrow> uint64 option" where
  "HashLen0to16 mem s len =
     (if len \<ge> 8 then do {
        let mul = k2 + len * 2;
        a0 \<leftarrow> Fetch64 mem s;
        let a = a0 + k2;
        b \<leftarrow> Fetch64 mem (s + uint len - 8);
        r1 \<leftarrow> Rotate b 37;
        let c = r1 * mul + a;
        r2 \<leftarrow> Rotate a 25;
        let d = (r2 + b) * mul;
        Some (HashLen16_mul c d mul)
      }
      else if len \<ge> 4 then do {
        let mul = k2 + len * 2;
        a32 \<leftarrow> Fetch32 mem s;
        let a = (ucast a32 :: uint64);
        t32 \<leftarrow> Fetch32 mem (s + uint len - 4);
        Some (HashLen16_mul (len + push_bit 3 a) (ucast t32) mul)
      }
      else if len > 0 then do {
        a \<leftarrow> byte_at mem s;
        b \<leftarrow> byte_at mem (s + uint (drop_bit 1 len));
        c \<leftarrow> byte_at mem (s + uint (len - 1));
        let y = (ucast a + push_bit 8 (ucast b) :: uint32);
        let z = (ucast (len + ucast (push_bit 2 (ucast c :: uint32))) :: uint32);
        Some (ShiftMix (ucast y * k2 XOR ucast z * k0) * k2)
      }
      else Some k2)"

definition HashLen17to32 :: "buffer \<Rightarrow> int \<Rightarrow> size_t \<Rightarrow> uint64 option" where
  "HashLen17to32 mem s len = do {
     let mul = k2 + len * 2;
     a0 \<leftarrow> Fetch64 mem s;
     let a = a0 * k1;
     b \<leftarrow> Fetch64 mem (s + 8);
     c0 \<leftarrow> Fetch64 mem (s + uint len - 8);
     let c = c0 * mul;
     d0 \<leftarrow> Fetch64 mem (s + uint len - 16);
     let d = d0 * k2;
     r1 \<leftarrow> Rotate (a + b) 43;
     r2 \<leftarrow> Rotate c 30;
     r3 \<leftarrow> Rotate (b + k2) 18;
     Some (HashLen16_mul (r1 + r2 + d) (a + r3 + c) mul)
   }"

definition WeakHashLen32WithSeeds ::
    "uint64 \<Rightarrow> uint64 \<Rightarrow> uint64 \<Rightarrow> uint64 \<Rightarrow> uint64 \<Rightarrow> uint64 \<Rightarrow> (uint64 \<times> uint64) option" where
  "WeakHashLen32WithSeeds w x y z a b = do {
     let a = a + w;
     b \<leftarrow> Rotate (b + a + z) 21;
     let c = a;
     let a = a + x;
     let a = a + y;
     r \<leftarrow> Rotate a 44;
     let b = b + r;
     Some (a + z, b + c)
   }"

text \<open>The overload of \<open>WeakHashLen32WithSeeds\<close> that reads \<open>s[0] ... s[31]\<close>.\<close>

definition WeakHashLen32WithSeeds_s ::
    "buffer \<Rightarrow> int \<Rightarrow> uint64 \<Rightarrow> uint64 \<Rightarrow> (uint64 \<times> uint64) option" where
  "WeakHashLen32WithSeeds_s mem s a b = do {
     w \<leftarrow> Fetch64 mem s;
     x \<leftarrow> Fetch64 mem (s + 8);
     y \<leftarrow> Fetch64 mem (s + 16);
     z \<leftarrow> Fetch64 mem (s + 24);
     WeakHashLen32WithSeeds w x y z a b
   }"

definition HashLen33to64 :: "buffer \<Rightarrow> int \<Rightarrow> size_t \<Rightarrow> uint64 option" where
  "HashLen33to64 mem s len = do {
     let mul = k2 + len * 2;
     a0 \<leftarrow> Fetch64 mem s;
     let a = a0 * k2;
     b \<leftarrow> Fetch64 mem (s + 8);
     c \<leftarrow> Fetch64 mem (s + uint len - 24);
     d \<leftarrow> Fetch64 mem (s + uint len - 32);
     e0 \<leftarrow> Fetch64 mem (s + 16);
     let e = e0 * k2;
     f0 \<leftarrow> Fetch64 mem (s + 24);
     let f = f0 * 9;
     g \<leftarrow> Fetch64 mem (s + uint len - 8);
     h0 \<leftarrow> Fetch64 mem (s + uint len - 16);
     let h = h0 * mul;
     r1 \<leftarrow> Rotate (a + g) 43;
     r2 \<leftarrow> Rotate b 30;
     let u = r1 + (r2 + c) * 9;
     let v = ((a + g) XOR d) + f + 1;
     let w = bswap_64 ((u + v) * mul) + h;
     r3 \<leftarrow> Rotate (e + f) 42;
     let x = r3 + c;
     let y = (bswap_64 ((v + w) * mul) + g) * mul;
     let z = e + f + c;
     let a = bswap_64 ((x + z) * mul + y) + b;
     let b = ShiftMix ((z + a) * mul + d + h) * mul;
     Some (b + x)
   }"

subsection \<open>CityHash64\<close>

text \<open>
  The local variables of \<open>CityHash64\<close> that the chunk loop reads and writes: the read
  cursor \<open>s\<close>, the counter \<open>len\<close>, the accumulators \<open>x\<close>, \<open>y\<close>, \<open>z\<close> and the two
  pairs \<open>v\<close> and \<open>w\<close>.
\<close>

record chunk_state =
  st_s :: int
  st_len :: size_t
  st_x :: uint64
  st_y :: uint64
  st_z :: uint64
  st_v :: "uint64 \<times> uint64"
  st_w :: "uint64 \<times> uint64"

text \<open>The first three statements of the large-input path: \<open>x\<close>, \<open>y\<close> and \<open>z\<close> from the tail.\<close>

definition CityHash64_seed_xyz :: "buffer \<Rightarrow> int \<Rightarrow> size_t \<Rightarrow> (uint64 \<times> uint64 \<times> uint64) option" where
  "CityHash64_seed_xyz mem s len = do {
     x \<leftarrow> Fetch64 mem (s + uint len - 40);
     y1 \<leftarrow> Fetch64 mem (s + uint len - 16);
     y2 \<leftarrow> Fetch64 mem (s + uint len - 56);
     let y = y1 + y2;
     z1 \<leftarrow> Fetch64 mem (s + uint len - 48);
     z2 \<leftarrow> Fetch64 mem (s + uint len - 24);
     let z = HashLen16 (z1 + len) z2;
     Some (x, y, z)
   }"

text \<open>
  Everything before the \<open>do\<close>: the seeds, the two weak-hash pairs, the second
  assignment to \<open>x\<close> and the rounding of \<open>len\<close>.
\<close>

definition CityHash64_seed :: "buffer \<Rightarrow> int \<Rightarrow> size_t \<Rightarrow> chunk_state option" where
  "CityHash64_seed mem s len = do {
     (x, y, z) \<leftarrow> CityHash64_seed_xyz mem s len;
     v \<leftarrow> WeakHashLen32WithSeeds_s mem (s + uint len - 64) len z;
     w \<leftarrow> WeakHashLen32WithSeeds_s mem (s + uint len - 32) (y + k1) x;
     f \<leftarrow> Fetch64 mem s;
     let x = x * k1 + f;
     let len = (len - 1) AND NOT 63;
     Some \<lparr>st_s = s, st_len = len, st_x = x, st_y = y, st_z = z, st_v = v, st_w = w\<rparr>
   }"

text \<open>One execution of the body of the \<open>do\<close> loop.\<close>

definition chunk :: "buffer \<Rightarrow> chunk_state \<Rightarrow> chunk_state option" where
  "chunk mem st = do {
     let s = st_s st; let len = st_len st;
     let x = st_x st; let y = st_y st; let z = st_z st;
     let v = st_v st; let w = st_w st;
     f8 \<leftarrow> Fetch64 mem (s + 8);
     r1 \<leftarrow> Rotate (x + y + fst v + f8) 37;
     let x = r1 * k1;
     f48 \<leftarrow> Fetch64 mem (s + 48);
     r2 \<leftarrow> Rotate (y + snd v + f48) 42;
     let y = r2 * k1;
     let x = x XOR snd w;
     f40 \<leftarrow> Fetch64 mem (s + 40);
     let y = y + (fst v + f40);
     r3 \<leftarrow> Rotate (z + fst w) 33;
     let z = r3 * k1;
     v' \<leftarrow> WeakHashLen32WithSeeds_s mem s (snd v * k1) (x + fst w);
     f16 \<leftarrow> Fetch64 mem (s + 16);
     w' \<leftarrow> WeakHashLen32WithSeeds_s mem (s + 32) (z + snd w) (y + f16);
     Some \<lparr>st_s = s + 64, st_len = len - 64, st_x = z, st_y = y, st_z = x,
           st_v = v', st_w = w'\<rparr>
   }"

text \<open>
  The \<open>do ... while (len != 0)\<close> loop. The counter is a \<open>size_t\<close> that wraps around, so
  the loop is a partial function: \<open>None\<close> is a loop that never ends, \<open>Some None\<close> one
  that ran into undefined behaviour, \<open>Some (Some st)\<close> one that left with the state
  \<open>st\<close>.
\<close>

partial_function (option) chunk_loop :: "buffer \<Rightarrow> chunk_state \<Rightarrow> chunk_state option option" where
  "chunk_loop mem st =
     (case chunk mem st of
        None \<Rightarrow> Some None
      | Some st' \<Rightarrow> if st_len st' \<noteq> 0 then chunk_loop mem st' else Some (Some st'))"

declare chunk_loop.simps [code]

text \<open>
  Counting the executions of the body: \<open>chunk_runs n mem st\<close> is the state in which
  the loop started in \<open>st\<close> leaves, if it leaves after exactly \<open>n\<close> executions of the
  body without undefined behaviour, and \<open>None\<close> otherwise. A \<open>do\<close> loop runs its body at
  least once.
\<close>

fun chunk_runs :: "nat \<Rightarrow> buffer \<Rightarrow> chunk_state \<Rightarrow> chunk_state option" where
  "chunk_runs 0 mem st = None"
| "chunk_runs (Suc n) mem st =
     (case chunk mem st of
        None \<Rightarrow> None
      | Some st' \<Rightarrow>
          if st_len st' \<noteq> 0 then chunk_runs n mem st'
          else if n = 0 then Some st' else None)"

text \<open>
  The body executed \<open>n\<close> times in a row, with no test of the counter in between:
  \<open>None\<close> as soon as one execution runs into undefined behaviour.
\<close>

fun chunk_iter :: "nat \<Rightarrow> buffer \<Rightarrow> chunk_state \<Rightarrow> chunk_state option" where
  "chunk_iter 0 mem st = Some st"
| "chunk_iter (Suc n) mem st =
     (case chunk mem st of
        None \<Rightarrow> None
      | Some st' \<Rightarrow> chunk_iter n mem st')"

text \<open>The \<open>return\<close> after the loop.\<close>

definition CityHash64_final :: "chunk_state \<Rightarrow> uint64" where
  "CityHash64_final st =
     HashLen16 (HashLen16 (fst (st_v st)) (fst (st_w st)) + ShiftMix (st_y st) * k1 + st_z st)
               (HashLen16 (snd (st_v st)) (snd (st_w st)) + st_x st)"

text \<open>The path of \<open>CityHash64\<close> for strings over 64 bytes.\<close>

definition CityHash64_large :: "buffer \<Rightarrow> int \<Rightarrow> size_t \<Rightarrow> uint64 option option" where
  "CityHash64_large mem s len =
     (case CityHash64_seed mem s len of
        None \<Rightarrow> Some None
      | Some st \<Rightarrow> map_option (map_option CityHash64_final) (chunk_loop mem st))"

definition CityHash64 :: "buffer \<Rightarrow> int \<Rightarrow> size_t \<Rightarrow> uint64 option option" where
  "CityHash64 mem s len =
     (if len \<le> 32 then
        (if len \<le> 16 then Some (HashLen0to16 mem s len)
         else Some (HashLen17to32 mem s len))
      else if len \<le> 64 then Some (HashLen33to64 mem s len)
      else CityHash64_large mem s len)"

section \<open>Auxiliary facts\<close>

subsection \<open>Reads inside the readable region and shifts in range are defined\<close>

lemma Fetch64_in_bounds:
  "0 \<le> p \<Longrightarrow> p + 8 \<le> int (length mem) \<Longrightarrow> Fetch64 mem p = Some (le_word (take 8 (drop (nat p) mem)))"
  by (simp add: Fetch64_def read_bytes_def)

lemma Fetch32_in_bounds:
  "0 \<le> p \<Longrightarrow> p + 4 \<le> int (length mem) \<Longrightarrow> Fetch32 mem p = Some (le_word (take 4 (drop (nat p) mem)))"
  by (simp add: Fetch32_def read_bytes_def)

lemma byte_at_in_bounds:
  "0 \<le> p \<Longrightarrow> p < int (length mem) \<Longrightarrow> byte_at mem p = Some (mem ! nat p)"
  by (simp add: byte_at_def)

lemma Rotate_in_range:
  "0 < n \<Longrightarrow> n < 64 \<Longrightarrow> Rotate v n = Some (drop_bit (nat n) v OR push_bit (nat (64 - n)) v)"
  by (simp add: Rotate_def shr64_def shl64_def)

lemma WeakHashLen32WithSeeds_defined:
  "WeakHashLen32WithSeeds w x y z a b \<noteq> None"
  by (simp add: WeakHashLen32WithSeeds_def Rotate_in_range Let_def)

lemma WeakHashLen32WithSeeds_s_defined:
  assumes "0 \<le> s" "s + 32 \<le> int (length mem)"
  shows "WeakHashLen32WithSeeds_s mem s a b \<noteq> None"
  using assms
  by (simp add: WeakHashLen32WithSeeds_s_def Fetch64_in_bounds WeakHashLen32WithSeeds_defined)

lemma chunk_defined:
  assumes "0 \<le> st_s st" "st_s st + 64 \<le> int (length mem)"
  shows "chunk mem st \<noteq> None"
  using assms
  by (simp add: chunk_def Fetch64_in_bounds Rotate_in_range Let_def bind_eq_None_conv
      WeakHashLen32WithSeeds_s_defined)

lemma chunk_cursor:
  assumes "chunk mem st = Some st'"
  shows "st_s st' = st_s st + 64 \<and> st_len st' = st_len st - 64"
  using assms
  by (auto simp add: chunk_def Let_def bind_eq_Some_conv)

lemma HashLen0to16_defined:
  assumes L: "uint len = int (length mem)" and "len \<le> 16"
  shows "HashLen0to16 mem 0 len \<noteq> None"
proof -
  consider (a) "8 \<le> len" | (b) "\<not> 8 \<le> len" "4 \<le> len"
    | (c) "\<not> 8 \<le> len" "\<not> 4 \<le> len" "0 < len" | (d) "\<not> 8 \<le> len" "\<not> 4 \<le> len" "\<not> 0 < len"
    by blast
  then show ?thesis
  proof cases
    case a
    then have "8 \<le> uint len" by (simp add: word_le_def)
    then have "Fetch64 mem 0 \<noteq> None" "Fetch64 mem (0 + uint len - 8) \<noteq> None"
      using L by (simp_all add: Fetch64_in_bounds)
    then show ?thesis using a
      by (simp add: HashLen0to16_def Let_def Rotate_in_range bind_eq_None_conv)
  next
    case b
    then have "4 \<le> uint len" by (simp add: word_le_def)
    then have "Fetch32 mem 0 \<noteq> None" "Fetch32 mem (0 + uint len - 4) \<noteq> None"
      using L by (simp_all add: Fetch32_in_bounds)
    then show ?thesis using b
      by (simp add: HashLen0to16_def Let_def bind_eq_None_conv)
  next
    case c
    then have pos: "0 < uint len" by (simp add: word_less_def)
    have u1: "uint (len - 1) = uint len - 1"
      using pos by (simp add: uint_sub_if')
    have u2: "uint (drop_bit 1 len) = uint len div 2"
      by (simp add: drop_bit_eq_div uint_div)
    have h: "0 \<le> uint len div 2" "uint len div 2 < uint len"
      using pos by simp_all
    have "byte_at mem 0 \<noteq> None" "byte_at mem (0 + uint (drop_bit 1 len)) \<noteq> None"
      "byte_at mem (0 + uint (len - 1)) \<noteq> None"
      unfolding u1 u2 byte_at_def using pos h by (simp_all add: L [symmetric])
    then show ?thesis using c
      by (simp add: HashLen0to16_def Let_def bind_eq_None_conv)
  next
    case d
    then show ?thesis by (simp add: HashLen0to16_def)
  qed
qed

lemma HashLen17to32_defined:
  assumes "uint len = int (length mem)" "16 < len" "len \<le> 32"
  shows "HashLen17to32 mem 0 len \<noteq> None"
proof -
  from assms have "16 < uint len" "uint len \<le> 32"
    by (simp_all add: word_less_def word_le_def)
  with assms(1) show ?thesis
    by (simp add: HashLen17to32_def Fetch64_in_bounds Rotate_in_range Let_def)
qed

lemma HashLen33to64_defined:
  assumes "uint len = int (length mem)" "32 < len" "len \<le> 64"
  shows "HashLen33to64 mem 0 len \<noteq> None"
proof -
  from assms have "32 < uint len" "uint len \<le> 64"
    by (simp_all add: word_less_def word_le_def)
  with assms(1) show ?thesis
    by (simp add: HashLen33to64_def Fetch64_in_bounds Rotate_in_range Let_def)
qed

lemma CityHash64_seed_xyz_defined:
  assumes "uint len = int (length mem)" "64 < len"
  shows "CityHash64_seed_xyz mem 0 len \<noteq> None"
proof -
  from assms have "64 < uint len"
    by (simp_all add: word_less_def)
  with assms(1) show ?thesis
    by (simp add: CityHash64_seed_xyz_def Fetch64_in_bounds Let_def)
qed

lemma CityHash64_seed_defined:
  assumes "uint len = int (length mem)" "64 < len"
  shows "CityHash64_seed mem 0 len \<noteq> None"
proof -
  from assms have "64 < uint len"
    by (simp_all add: word_less_def)
  with assms(1) have "WeakHashLen32WithSeeds_s mem (0 + uint len - 64) a b \<noteq> None"
    "WeakHashLen32WithSeeds_s mem (0 + uint len - 32) a b \<noteq> None" 
    "Fetch64 mem 0 \<noteq> None" for a b
    by (simp_all add: WeakHashLen32WithSeeds_s_defined Fetch64_in_bounds)
  with CityHash64_seed_xyz_defined [OF assms] show ?thesis
    by (simp add: CityHash64_seed_def Let_def bind_eq_None_conv case_prod_beta)
qed

lemma CityHash64_seed_fields:
  assumes "CityHash64_seed mem s len = Some st"
  shows "st_s st = s \<and> st_len st = (len - 1) AND NOT 63"
  using assms
  by (auto simp add: CityHash64_seed_def Let_def bind_eq_Some_conv split: prod.splits)

subsection \<open>The counter of the chunk loop\<close>

lemma round_down_64_bits: "(x :: 64 word) AND NOT 63 = push_bit 6 (drop_bit 6 x)"
proof -
  have m: "(63 :: 64 word) = mask 6" by (simp add: mask_eq_exp_minus_1)
  show ?thesis unfolding m
    by (rule bit_word_eqI) (auto simp add: bit_simps)
qed

lemma unat_round_down_64: "unat ((x :: 64 word) AND NOT 63) = 64 * (unat x div 64)"
proof -
  define q where "q = drop_bit 6 x"
  have d: "unat q = unat x div 64"
    unfolding q_def by (simp add: drop_bit_eq_div unat_div)
  moreover have "unat x < 2 ^ 64" using unsigned_less [of x] by simp
  ultimately have b: "64 * unat q < 2 ^ 64" by simp
  have "unat (push_bit 6 q) = take_bit 64 (push_bit 6 (unat q))"
    by (simp add: unsigned_push_bit_eq)
  also have "\<dots> = 64 * unat q"
    using b by (simp add: push_bit_eq_mult take_bit_nat_eq_self mult.commute)
  finally show ?thesis
    unfolding round_down_64_bits q_def [symmetric] by (simp add: d)
qed

lemma CityHash64_counter:
  assumes "64 < (len :: 64 word)"
  shows "unat ((len - 1) AND NOT 63) = 64 * Suc ((unat len - 1) div 64 - 1)"
proof -
  from assms have l: "64 < unat len" by (simp add: word_less_nat_alt)
  then have "len \<noteq> 0" by auto
  then have "unat (len - 1) = unat len - 1" by (rule unat_minus_one)
  moreover from l have "1 \<le> (unat len - 1) div 64" by simp
  ultimately show ?thesis using unat_round_down_64 [of "len - 1"] by simp
qed

lemma counter_step:
  assumes "unat (c :: 64 word) = 64 * Suc n"
  shows "unat (c - 64) = 64 * n"
proof -
  have "(64 :: 64 word) \<le> c" using assms by (simp add: word_le_nat_alt)
  then have "unat (c - 64) = unat c - unat (64 :: 64 word)" by (rule unat_sub)
  then show ?thesis using assms by simp
qed

lemma chunk_loop_exact:
  assumes "unat (st_len st) = 64 * Suc n" "0 \<le> st_s st"
    "st_s st + 64 * int (Suc n) \<le> int (length mem)"
  shows "\<exists>st'. chunk_runs (Suc n) mem st = Some st' \<and> chunk_loop mem st = Some (Some st')
           \<and> st_s st' = st_s st + 64 * int (Suc n) \<and> st_len st' = 0"
  using assms
proof (induction n arbitrary: st)
  case 0
  then have "chunk mem st \<noteq> None" by (simp add: chunk_defined)
  then obtain st' where c: "chunk mem st = Some st'" by blast
  from chunk_cursor [OF c] counter_step [OF "0.prems"(1)]
  have f: "st_s st' = st_s st + 64" "st_len st' = 0"
    by (simp_all add: unat_eq_0)
  show ?case
    by (subst chunk_loop.simps) (simp add: c f)
next
  case (Suc n)
  then have "chunk mem st \<noteq> None" by (simp add: chunk_defined)
  then obtain st1 where c: "chunk mem st = Some st1" by blast
  from chunk_cursor [OF c] counter_step [OF Suc.prems(1)]
  have f: "st_s st1 = st_s st + 64" "unat (st_len st1) = 64 * Suc n"
    by simp_all
  then have nz: "st_len st1 \<noteq> 0" by auto
  from Suc.prems f have "0 \<le> st_s st1" "st_s st1 + 64 * int (Suc n) \<le> int (length mem)"
    by simp_all
  from Suc.IH [OF f(2) this] obtain st' where
    r: "chunk_runs (Suc n) mem st1 = Some st'" "chunk_loop mem st1 = Some (Some st')"
      "st_s st' = st_s st1 + 64 * int (Suc n)" "st_len st' = 0"
    by blast
  have "chunk_loop mem st = Some (Some st')"
    by (subst chunk_loop.simps) (simp add: c nz r)
  moreover have "chunk_runs (Suc (Suc n)) mem st = Some st'"
    using c nz r by simp
  ultimately show ?case using r f by simp
qed

lemma chunk_loop_returns:
  assumes "unat (st_len st) = 64 * Suc n"
  shows "chunk_loop mem st \<noteq> None"
  using assms
proof (induction n arbitrary: st)
  case 0
  show ?case
  proof (cases "chunk mem st")
    case None
    then show ?thesis by (subst chunk_loop.simps) simp
  next
    case (Some st')
    from chunk_cursor [OF Some] counter_step [OF "0.prems"]
    have "st_len st' = 0" by (simp add: unat_eq_0)
    then show ?thesis by (subst chunk_loop.simps) (simp add: Some)
  qed
next
  case (Suc n)
  show ?case
  proof (cases "chunk mem st")
    case None
    then show ?thesis by (subst chunk_loop.simps) simp
  next
    case (Some st1)
    from chunk_cursor [OF Some] counter_step [OF Suc.prems]
    have f: "unat (st_len st1) = 64 * Suc n" by simp
    from Suc.IH [OF f] show ?thesis
      by (subst chunk_loop.simps) (simp add: Some)
  qed
qed

lemma chunk_runs_unique:
  "chunk_runs n mem st = Some a \<Longrightarrow> chunk_runs m mem st = Some b \<Longrightarrow> n = m"
proof (induction n arbitrary: m st)
  case 0
  then show ?case by simp
next
  case (Suc n)
  then obtain m' where m: "m = Suc m'" by (cases m) auto
  from Suc.prems obtain st1 where c: "chunk mem st = Some st1"
    by (auto split: option.splits)
  show ?case
  proof (cases "st_len st1 = 0")
    case True
    with Suc.prems c m show ?thesis by (auto split: if_splits)
  next
    case False
    with Suc.prems c m have "chunk_runs n mem st1 = Some a" "chunk_runs m' mem st1 = Some b"
      by simp_all
    from Suc.IH [OF this] m show ?thesis by simp
  qed
qed

subsection \<open>Rotation and small inputs\<close>

lemma word_rotr_as_shifts:
  "0 < n \<Longrightarrow> n < 64 \<Longrightarrow> word_rotr n (v :: 64 word) = drop_bit n v OR push_bit (64 - n) v"
proof (rule bit_word_eqI)
  fix k assume n: "0 < n" "n < 64" and k: "k < LENGTH(64)"
  show "bit (word_rotr n v) k = bit (drop_bit n v OR push_bit (64 - n) v) k"
  proof (cases "k + n < 64")
    case True
    then show ?thesis using n k
      by (auto simp add: bit_word_rotr_iff bit_or_iff bit_drop_bit_eq bit_push_bit_iff add.commute)
  next
    case False
    then have m: "(k + n) mod 64 = k + n - 64" using n k
      by (simp add: mod_if)
    have nb: "\<not> bit v (n + k)" using False bit_imp_le_length [of v "n + k"] by auto
    have e: "k + n - 64 = k - (64 - n)" using False n k by simp
    have g: "64 - n \<le> k" using False n k by simp
    show ?thesis using k nb g
      by (simp add: bit_word_rotr_iff bit_or_iff bit_drop_bit_eq bit_push_bit_iff m e)
  qed
qed

lemma CityHash64_one_zero_byte: "CityHash64 [0] 0 1 = Some (Some 13718060045003475796)"
  by (simp add: CityHash64_def HashLen0to16_def byte_at_def ShiftMix_def k0_def k2_def
      word_le_nat_alt word_less_nat_alt)

subsection \<open>The large-input path on a buffer of exactly \<open>len\<close> bytes\<close>

lemma uint_buffer_length:
  assumes "length (mem :: buffer) < 2 ^ 64"
  shows "uint (of_nat (length mem) :: size_t) = int (length mem)"
proof -
  have "unat (of_nat (length mem) :: size_t) = length mem"
    using assms by (simp add: unat_of_nat)
  then show ?thesis by (metis uint_nat)
qed

lemma buffer_length_less:
  assumes "length (mem :: buffer) < 2 ^ 64"
  shows "(k < (of_nat (length mem) :: size_t)) = (unat k < length mem)"
    "((of_nat (length mem) :: size_t) \<le> k) = (length mem \<le> unat k)"
  using assms by (simp_all add: word_less_nat_alt word_le_nat_alt unat_of_nat)

lemma CityHash64_large_runs:
  assumes L: "uint len = int (length mem)" and big: "64 < len"
  shows "\<exists>st0 st'. CityHash64_seed mem 0 len = Some st0
           \<and> st_s st0 = 0 \<and> unat (st_len st0) = 64 * ((length mem - 1) div 64)
           \<and> chunk_runs ((length mem - 1) div 64) mem st0 = Some st'
           \<and> chunk_loop mem st0 = Some (Some st')
           \<and> st_s st' = 64 * int ((length mem - 1) div 64) \<and> st_len st' = 0"
proof -
  have ul: "unat len = length mem" using L by (metis nat_int uint_nat)
  from big have l: "64 < unat len" by (simp add: word_less_nat_alt)
  define n where "n = (length mem - 1) div 64 - 1"
  have n: "(length mem - 1) div 64 = Suc n" using l ul by (simp add: n_def)
  from CityHash64_seed_defined [OF L big] obtain st0 where
    s: "CityHash64_seed mem 0 len = Some st0" by blast
  from CityHash64_seed_fields [OF s] CityHash64_counter [OF big]
  have f: "st_s st0 = 0" "unat (st_len st0) = 64 * Suc n"
    by (simp_all add: ul n_def)
  have "64 * Suc n \<le> length mem - 1" unfolding n [symmetric] by simp
  then have "st_s st0 + 64 * int (Suc n) \<le> int (length mem)" using f(1) by linarith
  from chunk_loop_exact [OF f(2) _ this] f(1) obtain st' where
    "chunk_runs (Suc n) mem st0 = Some st'" "chunk_loop mem st0 = Some (Some st')"
    "st_s st' = st_s st0 + 64 * int (Suc n)" "st_len st' = 0"
    by auto
  with s f show ?thesis unfolding n by auto
qed

lemma CityHash64_large_defined:
  assumes "uint len = int (length mem)" "64 < len"
  shows "\<exists>h. CityHash64_large mem 0 len = Some (Some h)"
proof -
  from CityHash64_large_runs [OF assms] obtain st0 st' where
    "CityHash64_seed mem 0 len = Some st0" "chunk_loop mem st0 = Some (Some st')"
    by blast
  then show ?thesis by (simp add: CityHash64_large_def)
qed

lemma CityHash64_large_returns:
  assumes "64 < len"
  shows "CityHash64_large mem s len \<noteq> None"
proof (cases "CityHash64_seed mem s len")
  case None
  then show ?thesis by (simp add: CityHash64_large_def)
next
  case (Some st0)
  from CityHash64_seed_fields [OF Some] CityHash64_counter [OF assms]
  have "unat (st_len st0) = 64 * Suc ((unat len - 1) div 64 - 1)" by simp
  from chunk_loop_returns [OF this] show ?thesis
    by (simp add: CityHash64_large_def Some)
qed

lemma CityHash64_returns: "CityHash64 mem s len \<noteq> None"
proof (cases "len \<le> 64")
  case True
  then show ?thesis by (simp add: CityHash64_def)
next
  case False
  then have "64 < len" by simp
  from CityHash64_large_returns [OF this] False show ?thesis
    by (auto simp add: CityHash64_def)
qed

lemma CityHash64_defined:
  assumes "length mem < 2 ^ 64"
  shows "\<exists>h. CityHash64 mem 0 (of_nat (length mem)) = Some (Some h)"
proof -
  define len :: size_t where "len = of_nat (length mem)"
  have L: "uint len = int (length mem)"
    unfolding len_def by (rule uint_buffer_length [OF assms])
  consider (a) "len \<le> 16" | (b) "16 < len" "len \<le> 32" | (c) "32 < len" "len \<le> 64" | (d) "64 < len"
    by (metis not_le)
  then have "\<exists>h. CityHash64 mem 0 len = Some (Some h)"
  proof cases
    case a
    with HashLen0to16_defined [OF L a] show ?thesis
      by (auto simp add: CityHash64_def word_le_nat_alt word_less_nat_alt)
  next
    case b
    with HashLen17to32_defined [OF L b] show ?thesis
      by (auto simp add: CityHash64_def word_le_nat_alt word_less_nat_alt)
  next
    case c
    with HashLen33to64_defined [OF L c] show ?thesis
      by (auto simp add: CityHash64_def word_le_nat_alt word_less_nat_alt)
  next
    case d
    with CityHash64_large_defined [OF L d] show ?thesis
      by (auto simp add: CityHash64_def word_le_nat_alt word_less_nat_alt)
  qed
  then show ?thesis by (simp add: len_def)
qed

lemma round_down_cases:
  assumes "0 < (n::nat)"
  shows "(n - 1) div 64 = (if 64 dvd n then n div 64 - 1 else n div 64)"
proof (cases "64 dvd n")
  case True
  then obtain k where k: "n = 64 * k" by (auto simp add: dvd_def)
  with assms obtain j where j: "k = Suc j" by (cases k) auto
  have "n - 1 = 64 * j + 63" using k j by simp
  then have "(n - 1) div 64 = j" by simp
  with True k j show ?thesis by simp
next
  case False
  define r where "r = n mod 64"
  from False have r: "0 < r" "r < 64" by (simp_all add: r_def dvd_eq_mod_eq_0)
  have "n = 64 * (n div 64) + r" by (simp add: r_def)
  then have "n - 1 = 64 * (n div 64) + (r - 1)" using r by linarith
  then have "(n - 1) div 64 = (64 * (n div 64) + (r - 1)) div 64" by simp
  also have "\<dots> = n div 64" using r by simp
  finally show ?thesis using False by simp
qed

subsection \<open>What the seeds depend on\<close>

lemma Fetch64_suffix:
  assumes "length b1 = length b2" "drop k b1 = drop k b2" "int k \<le> p"
  shows "Fetch64 b1 p = Fetch64 b2 p"
proof -
  from assms(3) have k: "nat p - k + k = nat p" by simp
  from assms(2) have "drop (nat p - k) (drop k b1) = drop (nat p - k) (drop k b2)" by simp
  then have "drop (nat p) b1 = drop (nat p) b2" by (simp add: k)
  with assms(1) show ?thesis
    by (simp add: Fetch64_def read_bytes_def)
qed

lemma CityHash64_seed_xyz_suffix:
  assumes "length b1 = length b2" "uint len = int (length b1)" "64 < len"
    "drop (length b1 - 56) b1 = drop (length b2 - 56) b2"
  shows "CityHash64_seed_xyz b1 0 len = CityHash64_seed_xyz b2 0 len"
proof -
  from assms(3) have "64 < uint len" by (simp add: word_less_def)
  with assms(2) have k: "int (length b1 - 56) \<le> 0 + uint len - 56" by simp
  have d: "drop (length b1 - 56) b1 = drop (length b1 - 56) b2"
    using assms(1,4) by simp
  have "Fetch64 b1 (0 + uint len - off) = Fetch64 b2 (0 + uint len - off)" if "off \<le> 56" for off
    by (rule Fetch64_suffix [OF assms(1) d]) (use k that in simp)
  then show ?thesis by (simp add: CityHash64_seed_xyz_def)
qed

lemma CityHash64_seed_parts:
  assumes "CityHash64_seed mem s len = Some st"
  shows "\<exists>x y z f. CityHash64_seed_xyz mem s len = Some (x, y, z) \<and> Fetch64 mem s = Some f
           \<and> st_x st = x * k1 + f \<and> st_y st = y \<and> st_z st = z"
  using assms
  by (auto simp add: CityHash64_seed_def Let_def bind_eq_Some_conv split: prod.splits)

lemma Fetch64_prefix:
  assumes "length b1 = length b2" "take 8 b1 = take 8 b2"
  shows "Fetch64 b1 0 = Fetch64 b2 0"
  using assms by (simp add: Fetch64_def read_bytes_def)

subsection \<open>Two concrete inputs of 65 bytes\<close>

lemma seed_65_zeros:
  "CityHash64_seed (replicate 65 0) 0 65 = Some
     \<lparr>st_s = 0, st_len = 64, st_x = 0, st_y = 0, st_z = 11680817368937742486,
      st_v = (65, 18016295239397675918),
      st_w = (13011662864482103923, 16366711768179259794)\<rparr>"
  by code_simp

lemma chunk_65_zeros:
  "chunk (replicate 65 0)
     \<lparr>st_s = 0, st_len = 64, st_x = 0, st_y = 0, st_z = 11680817368937742486,
      st_v = (65, 18016295239397675918),
      st_w = (13011662864482103923, 16366711768179259794)\<rparr> = Some
     \<lparr>st_s = 64, st_len = 0, st_x = 2584722753757042395,
      st_y = 7054493792146272222, st_z = 1730668526123334034,
      st_v = (17223000080784098506, 8192676366344576462),
      st_w = (504690448226750573, 12511529704405541366)\<rparr>"
  by code_simp

lemma seed_x_one_then_zeros:
  "map_option st_x (CityHash64_seed (1 # replicate 64 0) 0 65) = Some 1"
  by code_simp

subsection \<open>\<open>LoadBytes\<close> where plain \<open>char\<close> is unsigned\<close>

lemma le_word_snoc:
  "(le_word (bs @ [c]) :: uint64) = le_word bs OR push_bit (8 * length bs) (ucast c)"
proof (induction bs)
  case Nil
  show ?case by simp
next
  case (Cons b bs)
  have "push_bit 8 (push_bit (8 * length bs) (ucast c :: uint64))
      = push_bit (8 * length (b # bs)) (ucast c)"
    by (simp add: push_bit_push_bit add.commute)
  with Cons show ?case
    by (simp add: push_bit_or or.assoc del: push_bit_push_bit)
qed

lemma LoadBytes_loop_step:
  assumes "byte_at mem (buf + k) = Some c"
  shows "LoadBytes_loop cs mem buf val k =
     (if 0 \<le> k - 1 then LoadBytes_loop cs mem buf (push_bit 8 val OR char_to_uint64 cs c) (k - 1)
      else Some (push_bit 8 val OR char_to_uint64 cs c))"
  by (subst LoadBytes_loop.simps) (simp add: assms Let_def)

lemma LoadBytes_loop_unsigned:
  assumes "0 \<le> buf" "buf + int n < int (length mem)"
  shows "LoadBytes_loop False mem buf val (int n)
       = Some (push_bit (8 * Suc n) val OR le_word (take (Suc n) (drop (nat buf) mem)))"
  using assms
proof (induction n arbitrary: val)
  case 0
  then have t: "take (Suc 0) (drop (nat buf) mem) = [mem ! nat buf]"
    by (simp add: take_Suc_conv_app_nth)
  from 0 have b: "byte_at mem (buf + int 0) = Some (mem ! nat buf)"
    by (simp add: byte_at_def)
  show ?case
    unfolding LoadBytes_loop_step [OF b] t by (simp add: char_to_uint64_def)
next
  case (Suc n)
  let ?xs = "drop (nat buf) mem"
  from Suc.prems have len: "Suc n < length ?xs" by simp
  have nth: "?xs ! Suc n = mem ! (nat buf + Suc n)" using Suc.prems by simp
  have t: "take (Suc (Suc n)) ?xs = take (Suc n) ?xs @ [?xs ! Suc n]"
    using len by (rule take_Suc_conv_app_nth)
  have idx: "nat (buf + int (Suc n)) = nat buf + Suc n" using Suc.prems by simp
  from Suc.prems have b: "byte_at mem (buf + int (Suc n)) = Some (?xs ! Suc n)"
    unfolding byte_at_def idx nth by simp
  from Suc.prems have "buf + int n < int (length mem)" by simp
  note ih = Suc.IH [OF Suc.prems(1) this]
  have l: "length (take (Suc n) ?xs) = Suc n" using len by simp
  have k: "int (Suc n) - 1 = int n" by simp
  have "LoadBytes_loop False mem buf val (int (Suc n))
      = LoadBytes_loop False mem buf (push_bit 8 val OR ucast (?xs ! Suc n)) (int n)"
    unfolding LoadBytes_loop_step [OF b] k by (simp add: char_to_uint64_def)
  also have "\<dots> = Some (push_bit (8 * Suc n) (push_bit 8 val OR ucast (?xs ! Suc n))
      OR le_word (take (Suc n) ?xs))"
    by (rule ih)
  also have "push_bit (8 * Suc n) (push_bit 8 val OR ucast (?xs ! Suc n)) OR le_word (take (Suc n) ?xs)
      = push_bit (8 * Suc (Suc n)) val OR le_word (take (Suc (Suc n)) ?xs)"
    unfolding t le_word_snoc l
    by (simp add: push_bit_or push_bit_push_bit or.assoc or.commute or.left_commute add.commute)
  finally show ?case .
qed

lemma LoadBytes_unsigned:
  assumes "1 \<le> len" "0 \<le> buf" "buf + len \<le> int (length mem)"
  shows "LoadBytes False mem buf len = Some (le_word (take (nat len) (drop (nat buf) mem)))"
proof -
  define n where "n = nat (len - 1)"
  have n: "len - 1 = int n" "nat len = Suc n" using assms(1) by (simp_all add: n_def)
  have "buf + int n < int (length mem)" using assms n by simp
  from LoadBytes_loop_unsigned [OF assms(2) this, of 0] show ?thesis
    by (simp add: LoadBytes_def n del: take_Suc)
qed

lemma byte_then_shifted:
  fixes b :: uint8 and w :: uint64
  assumes "unat w < 2 ^ 56"
  shows "unat (ucast b OR push_bit 8 w :: uint64) = unat b + 256 * unat w"
proof -
  have disj: "\<not> bit (ucast b :: uint64) n \<or> \<not> bit (push_bit 8 w) n" for n
    by (cases "n < 8") (auto simp add: bit_simps dest: bit_imp_le_length)
  have o: "(ucast b :: uint64) OR push_bit 8 w = ucast b + push_bit 8 w"
    using disj by (rule disjunctive_add [symmetric])
  have b256: "unat b < 256" using unsigned_less [of b] by simp
  then have "unat b < 2 ^ 64" by simp
  then have ub: "unat (ucast b :: uint64) = unat b"
    by (simp add: unsigned_ucast_eq take_bit_nat_eq_self)
  have "unat (push_bit 8 w) = take_bit 64 (push_bit 8 (unat w))"
    by (simp add: unsigned_push_bit_eq)
  also have "\<dots> = 256 * unat w"
    using assms by (simp add: push_bit_eq_mult take_bit_nat_eq_self mult.commute)
  finally have up: "unat (push_bit 8 w) = 256 * unat w" .
  from b256 assms have "unat (ucast b :: uint64) + unat (push_bit 8 w) < 2 ^ LENGTH(64)"
    unfolding ub up by simp
  then have "unat ((ucast b :: uint64) + push_bit 8 w) = unat (ucast b :: uint64) + unat (push_bit 8 w)"
    by (rule unat_add_lem [THEN iffD1])
  then show ?thesis unfolding o ub up .
qed

lemma le_word_value:
  "length bs \<le> 8 \<Longrightarrow>
     unat (le_word bs :: uint64) = (\<Sum>i<length bs. unat (bs ! i) * 2 ^ (8 * i))
     \<and> unat (le_word bs :: uint64) < 2 ^ (8 * length bs)"
proof (induction bs)
  case Nil
  show ?case by simp
next
  case (Cons b bs)
  then have ih: "unat (le_word bs :: uint64) = (\<Sum>i<length bs. unat (bs ! i) * 2 ^ (8 * i))"
    and bd: "unat (le_word bs :: uint64) < 2 ^ (8 * length bs)"
    by simp_all
  from Cons.prems have "length bs \<le> 7" by simp
  then have "(2::nat) ^ (8 * length bs) \<le> 2 ^ 56"
    by (intro power_increasing) simp_all
  with bd have small: "unat (le_word bs :: uint64) < 2 ^ 56" by simp
  have v: "unat (le_word (b # bs) :: uint64) = unat b + 256 * unat (le_word bs :: uint64)"
    using byte_then_shifted [OF small] by simp
  have "(\<Sum>i<length (b # bs). unat ((b # bs) ! i) * 2 ^ (8 * i))
      = unat b + (\<Sum>i<length bs. unat (bs ! i) * 2 ^ (8 * Suc i))"
    by (simp add: sum.lessThan_Suc_shift del: sum.lessThan_Suc)
  also have "(\<Sum>i<length bs. unat (bs ! i) * 2 ^ (8 * Suc i))
      = 256 * (\<Sum>i<length bs. unat (bs ! i) * 2 ^ (8 * i))"
    by (simp add: sum_distrib_left power_add mult.assoc mult.commute mult.left_commute)
  finally have s: "(\<Sum>i<length (b # bs). unat ((b # bs) ! i) * 2 ^ (8 * i))
      = unat b + 256 * unat (le_word bs :: uint64)"
    by (simp add: ih)
  have "unat b < 256" using unsigned_less [of b] by simp
  moreover have "unat (le_word bs :: uint64) + 1 \<le> 2 ^ (8 * length bs)" using bd by simp
  then have "256 * (unat (le_word bs :: uint64) + 1) \<le> 256 * 2 ^ (8 * length bs)"
    by (rule mult_le_mono2)
  ultimately have "unat b + 256 * unat (le_word bs :: uint64) < 2 ^ (8 * length (b # bs))"
    by (simp add: power_add)
  with v s show ?case by simp
qed

lemma LoadBytes_unsigned_value:
  assumes "1 \<le> len" "len \<le> 8" "0 \<le> buf" "buf + len \<le> int (length mem)"
  shows "\<exists>v. LoadBytes False mem buf len = Some v
           \<and> unat v = (\<Sum>i<nat len. unat (mem ! (nat buf + i)) * 2 ^ (8 * i))
           \<and> unat v < 2 ^ (8 * nat len)"
proof -
  define bs where "bs = take (nat len) (drop (nat buf) mem)"
  have l: "length bs = nat len" using assms by (simp add: bs_def)
  then have l8: "length bs \<le> 8" using assms by simp
  have nth: "bs ! i = mem ! (nat buf + i)" if "i < nat len" for i
    using that assms by (simp add: bs_def)
  from le_word_value [OF l8]
  have "unat (le_word bs :: uint64) = (\<Sum>i<nat len. unat (bs ! i) * 2 ^ (8 * i))"
    "unat (le_word bs :: uint64) < 2 ^ (8 * nat len)"
    by (simp_all add: l)
  moreover have "(\<Sum>i<nat len. unat (bs ! i) * 2 ^ (8 * i))
      = (\<Sum>i<nat len. unat (mem ! (nat buf + i)) * 2 ^ (8 * i))"
    by (rule sum.cong) (simp_all add: nth)
  moreover have "LoadBytes False mem buf len = Some (le_word bs)"
    unfolding bs_def by (rule LoadBytes_unsigned [OF assms(1,3,4)])
  ultimately show ?thesis by simp
qed

subsection \<open>The chunk loop as a number of executions of its body\<close>

lemma chunk_loop_is_iteration:
  assumes "unat (st_len st) = 64 * Suc n"
  shows "chunk_loop mem st = Some (chunk_iter (Suc n) mem st)"
  using assms
proof (induction n arbitrary: st)
  case 0
  show ?case
  proof (cases "chunk mem st")
    case None
    then show ?thesis by (subst chunk_loop.simps) simp
  next
    case (Some st')
    from chunk_cursor [OF Some] counter_step [OF "0.prems"]
    have "st_len st' = 0" by (simp add: unat_eq_0)
    then show ?thesis by (subst chunk_loop.simps) (simp add: Some)
  qed
next
  case (Suc n)
  show ?case
  proof (cases "chunk mem st")
    case None
    then show ?thesis by (subst chunk_loop.simps) simp
  next
    case (Some st1)
    from chunk_cursor [OF Some] counter_step [OF Suc.prems]
    have f: "unat (st_len st1) = 64 * Suc n" by simp
    then have nz: "st_len st1 \<noteq> 0" by auto
    from Suc.IH [OF f] have "chunk_loop mem st1 = Some (chunk_iter (Suc n) mem st1)" .
    then show ?thesis
      by (subst chunk_loop.simps) (simp add: Some nz)
  qed
qed

lemma chunk_iter_counter:
  assumes "unat (st_len st) = 64 * N" "k \<le> N" "chunk_iter k mem st = Some stk"
  shows "unat (st_len stk) = 64 * (N - k)"
  using assms
proof (induction k arbitrary: st N)
  case 0
  then show ?case by simp
next
  case (Suc k)
  from Suc.prems(2) obtain M where N: "N = Suc M" by (cases N) auto
  from Suc.prems(3) obtain st1 where c: "chunk mem st = Some st1"
    and r: "chunk_iter k mem st1 = Some stk"
    by (auto split: option.splits)
  from Suc.prems(1) have "unat (st_len st) = 64 * Suc M" by (simp add: N)
  from chunk_cursor [OF c] counter_step [OF this]
  have "unat (st_len st1) = 64 * M" by simp
  moreover from Suc.prems(2) have "k \<le> M" by (simp add: N)
  ultimately have "unat (st_len stk) = 64 * (M - k)" using r by (rule Suc.IH)
  then show ?case by (simp add: N)
qed

lemma final_65_zeros:
  "CityHash64_final
     \<lparr>st_s = 64, st_len = 0, st_x = 2584722753757042395,
      st_y = 7054493792146272222, st_z = 1730668526123334034,
      st_v = (17223000080784098506, 8192676366344576462),
      st_w = (504690448226750573, 12511529704405541366)\<rparr> = 16500441696168920625"
  by code_simp

lemma dvd_64_counter:
  assumes "c \<noteq> 0" "64 dvd unat c"
  shows "\<exists>n. unat c = 64 * Suc n \<and> unat c div 64 = Suc n"
proof -
  from assms(2) obtain k where k: "unat c = 64 * k" by (auto simp add: dvd_def)
  have "k \<noteq> 0"
  proof
    assume "k = 0"
    with k have "unat c = 0" by simp
    with assms(1) show False by (simp add: unat_eq_0)
  qed
  then obtain n where "k = Suc n" by (cases k) auto
  with k show ?thesis by simp
qed

section \<open>The claims\<close>

text \<open>
  Claim C1, as the code has it: for an input of more than 64 bytes the chunk loop runs
  exactly \<open>(len - 1) div 64\<close> times, the counter starting at 64 times that number.
  It leaves with the cursor \<open>64 * ((len - 1) div 64)\<close> bytes into the buffer and the
  counter at 0, every execution of the body moves the cursor forward by 64 bytes and
  the counter down by 64, and \<open>(len - 1) div 64\<close> is \<open>len div 64\<close> unless 64 divides
  \<open>len\<close>, when it is one less.
\<close>

theorem chunk_loop_iterations:
  assumes "64 < length mem" "length mem < 2 ^ 64"
  shows "(\<exists>st0 st'. CityHash64_seed mem 0 (of_nat (length mem)) = Some st0
            \<and> st_s st0 = 0 \<and> unat (st_len st0) = 64 * ((length mem - 1) div 64)
            \<and> chunk_runs ((length mem - 1) div 64) mem st0 = Some st'
            \<and> chunk_loop mem st0 = Some (Some st')
            \<and> st_s st' = 64 * int ((length mem - 1) div 64) \<and> st_len st' = 0)
         \<and> (\<forall>st st1. chunk mem st = Some st1 \<longrightarrow>
               st_s st1 = st_s st + 64 \<and> st_len st1 = st_len st - 64)
         \<and> (length mem - 1) div 64 =
             (if 64 dvd length mem then length mem div 64 - 1 else length mem div 64)"
proof -
  have L: "uint (of_nat (length mem) :: size_t) = int (length mem)"
    by (rule uint_buffer_length [OF assms(2)])
  have big: "64 < (of_nat (length mem) :: size_t)"
    using assms by (simp add: buffer_length_less)
  from assms(1) have "0 < length mem" by auto
  then have c: "(length mem - 1) div 64 =
      (if 64 dvd length mem then length mem div 64 - 1 else length mem div 64)"
    by (rule round_down_cases)
  have b: "\<forall>st st1. chunk mem st = Some st1 \<longrightarrow>
      st_s st1 = st_s st + 64 \<and> st_len st1 = st_len st - 64"
    using chunk_cursor by blast
  from CityHash64_large_runs [OF L big] b c show ?thesis by (intro conjI)
qed

theorem chunk_loop_iterations_witness:
  "64 < length (replicate 65 (0 :: uint8)) \<and> length (replicate 65 (0 :: uint8)) < 2 ^ 64
   \<and> chunk_runs 1 (replicate 65 0)
        \<lparr>st_s = 0, st_len = 64, st_x = 0, st_y = 0, st_z = 11680817368937742486,
         st_v = (65, 18016295239397675918),
         st_w = (13011662864482103923, 16366711768179259794)\<rparr> \<noteq> None
   \<and> map_option (map_option st_s) (chunk_loop (replicate 65 0)
        \<lparr>st_s = 0, st_len = 64, st_x = 0, st_y = 0, st_z = 11680817368937742486,
         st_v = (65, 18016295239397675918),
         st_w = (13011662864482103923, 16366711768179259794)\<rparr>) = Some (Some 64)"
proof -
  have h: "64 < length (replicate 65 (0 :: uint8))" "length (replicate 65 (0 :: uint8)) < 2 ^ 64"
    by simp_all
  from chunk_loop_iterations [OF h] obtain st0 st' where
    "CityHash64_seed (replicate 65 0) 0 (of_nat (length (replicate 65 (0 :: uint8)))) = Some st0"
    "chunk_runs ((length (replicate 65 (0 :: uint8)) - 1) div 64) (replicate 65 0) st0 = Some st'"
    "chunk_loop (replicate 65 0) st0 = Some (Some st')"
    "st_s st' = 64 * int ((length (replicate 65 (0 :: uint8)) - 1) div 64)"
    by blast
  then show ?thesis using h by (simp add: seed_65_zeros)
qed

text \<open>
  Claim C1 as it is stated fails on 128 bytes: the loop does not run \<open>128 div 64\<close>
  times, it runs \<open>(128 - 1) div 64\<close> times, which is once.
\<close>

theorem chunk_loop_iterations_counterexample:
  "(CityHash64_seed (replicate 128 0) 0 128 \<bind> chunk_runs (128 div 64) (replicate 128 0)) = None
   \<and> (CityHash64_seed (replicate 128 0) 0 128 \<bind> chunk_runs ((128 - 1) div 64) (replicate 128 0)) \<noteq> None"
proof -
  have L: "uint (128 :: size_t) = int (length (replicate 128 (0 :: uint8)))" by simp
  have big: "64 < (128 :: size_t)" by (simp add: word_less_nat_alt)
  from CityHash64_large_runs [OF L big] obtain st0 st' where
    s: "CityHash64_seed (replicate 128 0) 0 128 = Some st0"
    and r: "chunk_runs 1 (replicate 128 0) st0 = Some st'"
    by auto
  have "chunk_runs 2 (replicate 128 0) st0 = None"
  proof (cases "chunk_runs 2 (replicate 128 0) st0")
    case None
    then show ?thesis .
  next
    case (Some b)
    from chunk_runs_unique [OF r Some] show ?thesis by simp
  qed
  with s r show ?thesis by simp
qed

text \<open>
  Claim C2, on the code as it is where plain \<open>char\<close> is signed: \<open>LoadBytes\<close> of the
  single byte \<open>0x80\<close> is not \<open>0x80\<close>, the little-endian value of that byte; the
  conversion of the negative \<open>char\<close> to \<open>uint64\<close> sets all 56 bits above it. Where
  plain \<open>char\<close> is unsigned the same call returns \<open>0x80\<close>, and \<open>LoadBytes\<close> is the
  little-endian packing of the claim for every content (\<open>LoadBytes_unsigned_value\<close>).
\<close>

theorem LoadBytes_sign_extends:
  "LoadBytes True [0x80] 0 1 = Some 0xFFFFFFFFFFFFFF80
   \<and> LoadBytes False [0x80] 0 1 = Some 0x80"
  by (simp add: LoadBytes_def byte_at_def char_to_uint64_def)

text \<open>
  Claim C3: on a buffer of exactly \<open>len\<close> bytes \<open>CityHash64\<close> returns a hash, that
  is, no read of any tier leaves the buffer (a read that does is \<open>None\<close>, as the reads
  one byte beyond the end and one byte before the start are).
\<close>

theorem CityHash64_reads_in_bounds:
  assumes "length mem < 2 ^ 64"
  shows "(\<exists>h. CityHash64 mem 0 (of_nat (length mem)) = Some (Some h))
         \<and> byte_at mem (int (length mem)) = None \<and> byte_at mem (- 1) = None
         \<and> Fetch32 mem (int (length mem) - 3) = None \<and> Fetch32 mem (- 1) = None
         \<and> Fetch64 mem (int (length mem) - 7) = None \<and> Fetch64 mem (- 1) = None"
  using CityHash64_defined [OF assms]
  by (simp add: byte_at_def Fetch32_def Fetch64_def read_bytes_def)

theorem CityHash64_reads_in_bounds_witness:
  "length (replicate 65 (0 :: uint8)) < 2 ^ 64
   \<and> (\<exists>h. CityHash64 (replicate 65 0) 0 65 = Some (Some h))
   \<and> Fetch64 (replicate 65 0) 58 = None"
proof -
  have h: "length (replicate 65 (0 :: uint8)) < 2 ^ 64" by simp
  from CityHash64_reads_in_bounds [OF h] show ?thesis by simp
qed

text \<open>
  Claim C4, as the code has it: on two inputs of the same length over 64 that agree on
  their last 56 bytes, the first three statements of the large-input path compute the
  same \<open>x\<close>, \<open>y\<close> and \<open>z\<close>, and the \<open>y\<close> and \<open>z\<close> that enter the loop are the same;
  the \<open>x\<close> that enters the loop is the same when the inputs agree on their first 8
  bytes as well.
\<close>

theorem CityHash64_seed_noninterference:
  assumes "length b1 = length b2" "64 < length b1" "length b1 < 2 ^ 64"
    "drop (length b1 - 56) b1 = drop (length b2 - 56) b2"
  shows "CityHash64_seed_xyz b1 0 (of_nat (length b1)) = CityHash64_seed_xyz b2 0 (of_nat (length b2))
         \<and> CityHash64_seed_xyz b1 0 (of_nat (length b1)) \<noteq> None
         \<and> (\<exists>st1 st2. CityHash64_seed b1 0 (of_nat (length b1)) = Some st1
               \<and> CityHash64_seed b2 0 (of_nat (length b2)) = Some st2
               \<and> st_y st1 = st_y st2 \<and> st_z st1 = st_z st2
               \<and> (take 8 b1 = take 8 b2 \<longrightarrow> st_x st1 = st_x st2))"
proof -
  define len :: size_t where "len = of_nat (length b1)"
  have len2: "of_nat (length b2) = len" using assms(1) by (simp add: len_def)
  have L1: "uint len = int (length b1)"
    unfolding len_def by (rule uint_buffer_length [OF assms(3)])
  then have L2: "uint len = int (length b2)" using assms(1) by simp
  have big: "64 < len"
    unfolding len_def using assms(2,3) by (simp add: buffer_length_less)
  have e: "CityHash64_seed_xyz b1 0 len = CityHash64_seed_xyz b2 0 len"
    by (rule CityHash64_seed_xyz_suffix [OF assms(1) L1 big assms(4)])
  have d: "CityHash64_seed_xyz b1 0 len \<noteq> None"
    by (rule CityHash64_seed_xyz_defined [OF L1 big])
  from CityHash64_seed_defined [OF L1 big] obtain st1 where
    s1: "CityHash64_seed b1 0 len = Some st1" by blast
  from CityHash64_seed_defined [OF L2 big] obtain st2 where
    s2: "CityHash64_seed b2 0 len = Some st2" by blast
  from CityHash64_seed_parts [OF s1] obtain x y z f where
    p1: "CityHash64_seed_xyz b1 0 len = Some (x, y, z)" "Fetch64 b1 0 = Some f"
      "st_x st1 = x * k1 + f" "st_y st1 = y" "st_z st1 = z"
    by blast
  from CityHash64_seed_parts [OF s2] obtain x' y' z' f' where
    p2: "CityHash64_seed_xyz b2 0 len = Some (x', y', z')" "Fetch64 b2 0 = Some f'"
      "st_x st2 = x' * k1 + f'" "st_y st2 = y'" "st_z st2 = z'"
    by blast
  from e p1(1) p2(1) have q: "x = x'" "y = y'" "z = z'" by simp_all
  have "st_x st1 = st_x st2" if "take 8 b1 = take 8 b2"
    using Fetch64_prefix [OF assms(1) that] p1 p2 q by simp
  with e d s1 s2 p1 p2 q show ?thesis unfolding len2 len_def [symmetric] by auto
qed

theorem CityHash64_seed_noninterference_witness:
  "length (replicate 65 (0 :: uint8)) = length (1 # replicate 64 (0 :: uint8))
   \<and> 64 < length (replicate 65 (0 :: uint8)) \<and> length (replicate 65 (0 :: uint8)) < 2 ^ 64
   \<and> drop (length (replicate 65 (0 :: uint8)) - 56) (replicate 65 (0 :: uint8))
       = drop (length (1 # replicate 64 (0 :: uint8)) - 56) (1 # replicate 64 0)
   \<and> CityHash64_seed_xyz (replicate 65 0) 0 65 = CityHash64_seed_xyz (1 # replicate 64 0) 0 65
   \<and> CityHash64_seed_xyz (replicate 65 0) 0 65 \<noteq> None"
proof -
  have h: "length (replicate 65 (0 :: uint8)) = length (1 # replicate 64 (0 :: uint8))"
    "64 < length (replicate 65 (0 :: uint8))" "length (replicate 65 (0 :: uint8)) < 2 ^ 64"
    "drop (length (replicate 65 (0 :: uint8)) - 56) (replicate 65 (0 :: uint8))
       = drop (length (1 # replicate 64 (0 :: uint8)) - 56) (1 # replicate 64 0)"
    by simp_all
  note t = CityHash64_seed_noninterference [OF h]
  from t [THEN conjunct1]
  have a: "CityHash64_seed_xyz (replicate 65 0) 0 65 = CityHash64_seed_xyz (1 # replicate 64 0) 0 65"
    by simp
  from t [THEN conjunct2, THEN conjunct1]
  have b: "CityHash64_seed_xyz (replicate 65 0) 0 65 \<noteq> None"
    by simp
  from h a b show ?thesis by (intro conjI)
qed

text \<open>
  Claim C4 as it is stated fails: 65 zero bytes and a one followed by 64 zero bytes
  agree on their last 56 bytes, and enter the loop with different \<open>x\<close>.
\<close>

theorem CityHash64_seed_noninterference_counterexample:
  "length (replicate 65 (0 :: uint8)) = length (1 # replicate 64 (0 :: uint8))
   \<and> drop (65 - 56) (replicate 65 (0 :: uint8)) = drop (65 - 56) (1 # replicate 64 0)
   \<and> map_option st_x (CityHash64_seed (replicate 65 0) 0 65) = Some 0
   \<and> map_option st_x (CityHash64_seed (1 # replicate 64 0) 0 65) = Some 1"
  using seed_65_zeros seed_x_one_then_zeros by simp

text \<open>
  Claim C5: \<open>CityHash64\<close> is routed by \<open>len\<close> alone. On each of the four bands of
  \<open>len\<close>, which are disjoint and cover every \<open>size_t\<close>, it is the hasher of that band,
  for every memory and every pointer.
\<close>

theorem CityHash64_dispatch:
  "(len \<le> 16 \<longrightarrow> CityHash64 mem s len = Some (HashLen0to16 mem s len))
   \<and> (17 \<le> len \<and> len \<le> 32 \<longrightarrow> CityHash64 mem s len = Some (HashLen17to32 mem s len))
   \<and> (33 \<le> len \<and> len \<le> 64 \<longrightarrow> CityHash64 mem s len = Some (HashLen33to64 mem s len))
   \<and> (64 < len \<longrightarrow> CityHash64 mem s len = CityHash64_large mem s len)"
  by (auto simp add: CityHash64_def word_le_nat_alt word_less_nat_alt)

theorem CityHash64_dispatch_witness:
  "(16 :: size_t) \<le> 16 \<and> CityHash64 (replicate 16 7) 0 16 = Some (HashLen0to16 (replicate 16 7) 0 16)
   \<and> (17 :: size_t) \<le> 17 \<and> (17 :: size_t) \<le> 32
   \<and> CityHash64 (replicate 17 7) 0 17 = Some (HashLen17to32 (replicate 17 7) 0 17)
   \<and> (33 :: size_t) \<le> 64 \<and> (64 :: size_t) \<le> 64
   \<and> CityHash64 (replicate 64 7) 0 64 = Some (HashLen33to64 (replicate 64 7) 0 64)
   \<and> (64 :: size_t) < 65
   \<and> CityHash64 (replicate 65 7) 0 65 = CityHash64_large (replicate 65 7) 0 65"
  using CityHash64_dispatch [of 16 "replicate 16 7" 0] CityHash64_dispatch [of 17 "replicate 17 7" 0]
    CityHash64_dispatch [of 64 "replicate 64 7" 0] CityHash64_dispatch [of 65 "replicate 65 7" 0]
  by (simp add: word_le_nat_alt word_less_nat_alt)

text \<open>
  Claim C6: on the empty input \<open>CityHash64\<close> returns the constant \<open>k2\<close>, which is
  \<open>0x9ae16a3b2f90404f\<close>, whatever the memory and the pointer.
\<close>

theorem CityHash64_empty:
  "CityHash64 mem s 0 = Some (Some k2) \<and> k2 = 0x9ae16a3b2f90404f"
  by (simp add: CityHash64_def HashLen0to16_def k2_def)

text \<open>
  Claim C7: for a shift from 0 up to 63 \<open>Rotate\<close> is defined and is the right rotation
  by that many bits; at shift 0 it returns its argument, and the left shift by
  \<open>64 - 0\<close> that the guard keeps from being evaluated is undefined.
\<close>

theorem Rotate_right_rotation:
  "(0 \<le> shift \<and> shift < 64 \<longrightarrow> Rotate val shift = Some (word_rotr (nat shift) val))
   \<and> Rotate val 0 = Some val
   \<and> shl64 val (64 - 0) = None"
proof -
  have "Rotate val shift = Some (word_rotr (nat shift) val)" if "0 \<le> shift" "shift < 64"
  proof (cases "shift = 0")
    case True
    have "word_rotr 0 val = val"
      by (rule bit_word_eqI) (simp add: bit_word_rotr_iff)
    with True show ?thesis by (simp add: Rotate_def)
  next
    case False
    with that have r: "0 < nat shift" "nat shift < 64" "0 < shift" by simp_all
    have "nat (64 - shift) = 64 - nat shift" using that by simp
    with that r(3) show ?thesis
      by (simp add: Rotate_in_range word_rotr_as_shifts [OF r(1,2)])
  qed
  then show ?thesis by (simp add: Rotate_def shl64_def)
qed

theorem Rotate_right_rotation_witness:
  "(0::int) \<le> 1 \<and> (1::int) < 64
   \<and> Rotate 0x8000000000000001 1 = Some (word_rotr (nat 1) 0x8000000000000001)"
  using Rotate_right_rotation [of 1 "0x8000000000000001"] by simp

text \<open>
  Claim C8: \<open>CityHash64\<close> returns for every memory, pointer and length, and on a buffer
  of exactly \<open>len\<close> bytes it returns exactly one hash. For a length over 64 the counter
  of the chunk loop starts at a multiple of 64 that is not 0, and every execution of the
  body takes 64 off a counter that is such a multiple, without wrapping around. A loop
  started on such a counter is, on every memory, the body executed counter / 64 times
  and no more: the counter is not 0 before the last of these executions and is 0 after
  it, so the loop leaves there, and \<open>CityHash64\<close> is the \<open>return\<close> on the state left. On
  a buffer of exactly \<open>len\<close> bytes the loop that \<open>CityHash64\<close> runs leaves with the
  counter at 0 and the hash is computed from the state it leaves.
\<close>

theorem CityHash64_total:
  "(\<exists>r. CityHash64 mem s len = Some r)
   \<and> (length mem < 2 ^ 64 \<longrightarrow> (\<exists>!h. CityHash64 mem 0 (of_nat (length mem)) = Some (Some h)))
   \<and> (64 < len \<longrightarrow> (len - 1) AND NOT 63 \<noteq> 0 \<and> 64 dvd unat ((len - 1) AND NOT 63)
         \<and> (\<forall>st. CityHash64_seed mem s len = Some st \<longrightarrow> st_len st = (len - 1) AND NOT 63
               \<and> CityHash64 mem s len =
                   Some (map_option CityHash64_final (chunk_iter (unat (st_len st) div 64) mem st))))
   \<and> (\<forall>st st'. chunk mem st = Some st' \<and> st_len st \<noteq> 0 \<and> 64 dvd unat (st_len st) \<longrightarrow>
         st_len st' = st_len st - 64 \<and> unat (st_len st') = unat (st_len st) - 64
         \<and> 64 dvd unat (st_len st'))
   \<and> (\<forall>st. st_len st \<noteq> 0 \<and> 64 dvd unat (st_len st) \<longrightarrow>
         chunk_loop mem st = Some (chunk_iter (unat (st_len st) div 64) mem st)
         \<and> (\<forall>k stk. k < unat (st_len st) div 64 \<and> chunk_iter k mem st = Some stk \<longrightarrow>
               st_len stk \<noteq> 0)
         \<and> (\<forall>st'. chunk_iter (unat (st_len st) div 64) mem st = Some st' \<longrightarrow> st_len st' = 0))
   \<and> (64 < length mem \<and> length mem < 2 ^ 64 \<longrightarrow>
         (\<exists>st0 st'. CityHash64_seed mem 0 (of_nat (length mem)) = Some st0
            \<and> chunk_iter ((length mem - 1) div 64) mem st0 = Some st'
            \<and> chunk_loop mem st0 = Some (Some st') \<and> st_len st' = 0
            \<and> CityHash64 mem 0 (of_nat (length mem)) = Some (Some (CityHash64_final st'))))"
proof -
  have a: "\<exists>r. CityHash64 mem s len = Some r"
    using CityHash64_returns [of mem s len] by auto
  have b: "\<exists>!h. CityHash64 mem 0 (of_nat (length mem)) = Some (Some h)" if "length mem < 2 ^ 64"
    using CityHash64_defined [OF that] by auto
  have e: "chunk_loop m st = Some (chunk_iter (unat (st_len st) div 64) m st)
         \<and> (\<forall>k stk. k < unat (st_len st) div 64 \<and> chunk_iter k m st = Some stk \<longrightarrow>
               st_len stk \<noteq> 0)
         \<and> (\<forall>st'. chunk_iter (unat (st_len st) div 64) m st = Some st' \<longrightarrow> st_len st' = 0)"
    if "st_len st \<noteq> 0" "64 dvd unat (st_len st)" for st and m :: buffer
  proof -
    from dvd_64_counter [OF that] obtain n where
      n: "unat (st_len st) = 64 * Suc n" "unat (st_len st) div 64 = Suc n" by blast
    have i1: "chunk_loop m st = Some (chunk_iter (unat (st_len st) div 64) m st)"
      unfolding n(2) by (rule chunk_loop_is_iteration [OF n(1)])
    have i2: "st_len stk \<noteq> 0" if "k < unat (st_len st) div 64" "chunk_iter k m st = Some stk"
      for k stk
    proof -
      from that(1) have "k \<le> Suc n" "0 < Suc n - k" by (simp_all add: n(2))
      with chunk_iter_counter [OF n(1) _ that(2)] have "0 < unat (st_len stk)" by simp
      then show ?thesis by auto
    qed
    have i3: "st_len st' = 0" if "chunk_iter (unat (st_len st) div 64) m st = Some st'" for st'
    proof -
      from that have "chunk_iter (Suc n) m st = Some st'" by (simp only: n(2))
      from chunk_iter_counter [OF n(1) _ this] have "unat (st_len st') = 0" by simp
      then show ?thesis by (simp add: unat_eq_0)
    qed
    from i2 have q2: "\<forall>k stk. k < unat (st_len st) div 64 \<and> chunk_iter k m st = Some stk \<longrightarrow>
               st_len stk \<noteq> 0" by blast
    from i3 have q3: "\<forall>st'. chunk_iter (unat (st_len st) div 64) m st = Some st' \<longrightarrow> st_len st' = 0"
      by blast
    from i1 q2 q3 show ?thesis by (intro conjI)
  qed
  have c: "(len - 1) AND NOT 63 \<noteq> 0 \<and> 64 dvd unat ((len - 1) AND NOT 63)
         \<and> (\<forall>st. CityHash64_seed mem s len = Some st \<longrightarrow> st_len st = (len - 1) AND NOT 63
               \<and> CityHash64 mem s len =
                   Some (map_option CityHash64_final (chunk_iter (unat (st_len st) div 64) mem st)))"
    if big: "64 < len"
  proof -
    from CityHash64_counter [OF big]
    have u: "unat ((len - 1) AND NOT 63) = 64 * Suc ((unat len - 1) div 64 - 1)" .
    have nz: "(len - 1) AND NOT 63 \<noteq> 0"
    proof
      assume "(len - 1) AND NOT 63 = 0"
      then have "unat ((len - 1) AND NOT 63) = 0" by simp
      with u show False by simp
    qed
    have dv: "64 dvd unat ((len - 1) AND NOT 63)" unfolding u by simp
    have "st_len st = (len - 1) AND NOT 63
        \<and> CityHash64 mem s len =
            Some (map_option CityHash64_final (chunk_iter (unat (st_len st) div 64) mem st))"
      if sd: "CityHash64_seed mem s len = Some st" for st
    proof -
      from CityHash64_seed_fields [OF sd] have f: "st_len st = (len - 1) AND NOT 63" by simp
      with nz dv have "st_len st \<noteq> 0" "64 dvd unat (st_len st)" by simp_all
      from e [OF this, THEN conjunct1]
      have l: "chunk_loop mem st = Some (chunk_iter (unat (st_len st) div 64) mem st)" .
      from big have "\<not> len \<le> 64" "\<not> len \<le> 32"
        by (simp_all add: word_le_nat_alt word_less_nat_alt)
      then have "CityHash64 mem s len = CityHash64_large mem s len"
        by (simp add: CityHash64_def)
      also have "\<dots> = Some (map_option CityHash64_final (chunk_iter (unat (st_len st) div 64) mem st))"
        by (simp add: CityHash64_large_def sd l)
      finally show ?thesis using f by simp
    qed
    then have "\<forall>st. CityHash64_seed mem s len = Some st \<longrightarrow> st_len st = (len - 1) AND NOT 63
               \<and> CityHash64 mem s len =
                   Some (map_option CityHash64_final (chunk_iter (unat (st_len st) div 64) mem st))"
      by blast
    with nz dv show ?thesis by (intro conjI)
  qed
  have d: "st_len st' = st_len st - 64 \<and> unat (st_len st') = unat (st_len st) - 64
         \<and> 64 dvd unat (st_len st')"
    if "chunk mem st = Some st'" "st_len st \<noteq> 0" "64 dvd unat (st_len st)" for st st'
  proof -
    from dvd_64_counter [OF that(2,3)] obtain n where n: "unat (st_len st) = 64 * Suc n" by blast
    from chunk_cursor [OF that(1)] counter_step [OF n] n show ?thesis by simp
  qed
  have f: "\<exists>st0 st'. CityHash64_seed mem 0 (of_nat (length mem)) = Some st0
            \<and> chunk_iter ((length mem - 1) div 64) mem st0 = Some st'
            \<and> chunk_loop mem st0 = Some (Some st') \<and> st_len st' = 0
            \<and> CityHash64 mem 0 (of_nat (length mem)) = Some (Some (CityHash64_final st'))"
    if "64 < length mem" "length mem < 2 ^ 64"
  proof -
    define ln :: size_t where "ln = of_nat (length mem)"
    have L: "uint ln = int (length mem)"
      unfolding ln_def by (rule uint_buffer_length [OF that(2)])
    have big: "64 < ln"
      unfolding ln_def using that by (simp add: buffer_length_less)
    from CityHash64_large_runs [OF L big] obtain st0 st' where
      r: "CityHash64_seed mem 0 ln = Some st0"
        "unat (st_len st0) = 64 * ((length mem - 1) div 64)"
        "chunk_loop mem st0 = Some (Some st')" "st_len st' = 0"
      by blast
    from that(1) have "0 < (length mem - 1) div 64" by simp
    with r(2) have "st_len st0 \<noteq> 0" "64 dvd unat (st_len st0)" by auto
    from e [OF this, THEN conjunct1]
    have "chunk_loop mem st0 = Some (chunk_iter (unat (st_len st0) div 64) mem st0)" .
    then have "chunk_loop mem st0 = Some (chunk_iter ((length mem - 1) div 64) mem st0)"
      by (simp add: r(2))
    with r(3) have i: "chunk_iter ((length mem - 1) div 64) mem st0 = Some st'" by simp
    from big have "\<not> ln \<le> 64" "\<not> ln \<le> 32"
      by (simp_all add: word_le_nat_alt word_less_nat_alt)
    then have "CityHash64 mem 0 ln = CityHash64_large mem 0 ln"
      by (simp add: CityHash64_def)
    also have "\<dots> = Some (Some (CityHash64_final st'))"
      by (simp add: CityHash64_large_def r)
    finally have "CityHash64 mem 0 ln = Some (Some (CityHash64_final st'))" .
    with r(1,3,4) i show ?thesis unfolding ln_def by (intro exI conjI)
  qed
  have B: "length mem < 2 ^ 64 \<longrightarrow> (\<exists>!h. CityHash64 mem 0 (of_nat (length mem)) = Some (Some h))"
    using b by (rule impI)
  have C: "64 < len \<longrightarrow> (len - 1) AND NOT 63 \<noteq> 0 \<and> 64 dvd unat ((len - 1) AND NOT 63)
         \<and> (\<forall>st. CityHash64_seed mem s len = Some st \<longrightarrow> st_len st = (len - 1) AND NOT 63
               \<and> CityHash64 mem s len =
                   Some (map_option CityHash64_final (chunk_iter (unat (st_len st) div 64) mem st)))"
    using c by (rule impI)
  have D: "\<forall>st st'. chunk mem st = Some st' \<and> st_len st \<noteq> 0 \<and> 64 dvd unat (st_len st) \<longrightarrow>
         st_len st' = st_len st - 64 \<and> unat (st_len st') = unat (st_len st) - 64
         \<and> 64 dvd unat (st_len st')"
  proof (intro allI impI)
    fix st st'
    assume "chunk mem st = Some st' \<and> st_len st \<noteq> 0 \<and> 64 dvd unat (st_len st)"
    then have "chunk mem st = Some st'" "st_len st \<noteq> 0" "64 dvd unat (st_len st)" by simp_all
    then show "st_len st' = st_len st - 64 \<and> unat (st_len st') = unat (st_len st) - 64
         \<and> 64 dvd unat (st_len st')" by (rule d)
  qed
  have E: "\<forall>st. st_len st \<noteq> 0 \<and> 64 dvd unat (st_len st) \<longrightarrow>
         chunk_loop mem st = Some (chunk_iter (unat (st_len st) div 64) mem st)
         \<and> (\<forall>k stk. k < unat (st_len st) div 64 \<and> chunk_iter k mem st = Some stk \<longrightarrow>
               st_len stk \<noteq> 0)
         \<and> (\<forall>st'. chunk_iter (unat (st_len st) div 64) mem st = Some st' \<longrightarrow> st_len st' = 0)"
  proof (intro allI impI)
    fix st :: chunk_state
    assume "st_len st \<noteq> 0 \<and> 64 dvd unat (st_len st)"
    then have "st_len st \<noteq> 0" "64 dvd unat (st_len st)" by simp_all
    then show "chunk_loop mem st = Some (chunk_iter (unat (st_len st) div 64) mem st)
         \<and> (\<forall>k stk. k < unat (st_len st) div 64 \<and> chunk_iter k mem st = Some stk \<longrightarrow>
               st_len stk \<noteq> 0)
         \<and> (\<forall>st'. chunk_iter (unat (st_len st) div 64) mem st = Some st' \<longrightarrow> st_len st' = 0)"
      by (rule e)
  qed
  have F: "64 < length mem \<and> length mem < 2 ^ 64 \<longrightarrow>
         (\<exists>st0 st'. CityHash64_seed mem 0 (of_nat (length mem)) = Some st0
            \<and> chunk_iter ((length mem - 1) div 64) mem st0 = Some st'
            \<and> chunk_loop mem st0 = Some (Some st') \<and> st_len st' = 0
            \<and> CityHash64 mem 0 (of_nat (length mem)) = Some (Some (CityHash64_final st')))"
  proof
    assume "64 < length mem \<and> length mem < 2 ^ 64"
    then have "64 < length mem" "length mem < 2 ^ 64" by simp_all
    then show "\<exists>st0 st'. CityHash64_seed mem 0 (of_nat (length mem)) = Some st0
            \<and> chunk_iter ((length mem - 1) div 64) mem st0 = Some st'
            \<and> chunk_loop mem st0 = Some (Some st') \<and> st_len st' = 0
            \<and> CityHash64 mem 0 (of_nat (length mem)) = Some (Some (CityHash64_final st'))"
      by (rule f)
  qed
  from a B C D E F show ?thesis by (intro conjI)
qed

theorem CityHash64_total_witness:
  "length (replicate 65 (0 :: uint8)) < 2 ^ 64 \<and> 64 < length (replicate 65 (0 :: uint8))
   \<and> (64 :: size_t) < 65
   \<and> CityHash64_seed (replicate 65 0) 0 65 = Some
        \<lparr>st_s = 0, st_len = 64, st_x = 0, st_y = 0, st_z = 11680817368937742486,
         st_v = (65, 18016295239397675918),
         st_w = (13011662864482103923, 16366711768179259794)\<rparr>
   \<and> (64 :: size_t) = (65 - 1) AND NOT 63 \<and> (64 :: size_t) \<noteq> 0 \<and> 64 dvd unat (64 :: size_t)
   \<and> chunk (replicate 65 0)
        \<lparr>st_s = 0, st_len = 64, st_x = 0, st_y = 0, st_z = 11680817368937742486,
         st_v = (65, 18016295239397675918),
         st_w = (13011662864482103923, 16366711768179259794)\<rparr> = Some
        \<lparr>st_s = 64, st_len = 0, st_x = 2584722753757042395,
         st_y = 7054493792146272222, st_z = 1730668526123334034,
         st_v = (17223000080784098506, 8192676366344576462),
         st_w = (504690448226750573, 12511529704405541366)\<rparr>
   \<and> unat (0 :: size_t) = unat (64 :: size_t) - 64
   \<and> chunk_loop (replicate 65 0)
        \<lparr>st_s = 0, st_len = 64, st_x = 0, st_y = 0, st_z = 11680817368937742486,
         st_v = (65, 18016295239397675918),
         st_w = (13011662864482103923, 16366711768179259794)\<rparr> = Some (Some
        \<lparr>st_s = 64, st_len = 0, st_x = 2584722753757042395,
         st_y = 7054493792146272222, st_z = 1730668526123334034,
         st_v = (17223000080784098506, 8192676366344576462),
         st_w = (504690448226750573, 12511529704405541366)\<rparr>)
   \<and> CityHash64 (replicate 65 0) 0 65 = Some (Some 16500441696168920625)
   \<and> (\<exists>!h. CityHash64 (replicate 65 0) 0 65 = Some (Some h))"
proof -
  define m :: buffer where "m = replicate 65 0"
  define a :: chunk_state where
    "a = \<lparr>st_s = 0, st_len = 64, st_x = 0, st_y = 0, st_z = 11680817368937742486,
         st_v = (65, 18016295239397675918),
         st_w = (13011662864482103923, 16366711768179259794)\<rparr>"
  define b :: chunk_state where
    "b = \<lparr>st_s = 64, st_len = 0, st_x = 2584722753757042395,
         st_y = 7054493792146272222, st_z = 1730668526123334034,
         st_v = (17223000080784098506, 8192676366344576462),
         st_w = (504690448226750573, 12511529704405541366)\<rparr>"
  have sd: "CityHash64_seed m 0 65 = Some a"
    unfolding m_def a_def by (rule seed_65_zeros)
  have ch: "chunk m a = Some b"
    unfolding m_def a_def b_def by (rule chunk_65_zeros)
  have fin: "CityHash64_final b = 16500441696168920625"
    unfolding b_def by (rule final_65_zeros)
  have la: "st_len a = 64" and lb: "st_len b = 0" by (simp_all add: a_def b_def)
  have n1: "unat (st_len a) div 64 = Suc 0" by (simp add: la)
  have it: "chunk_iter (Suc 0) m a = Some b" by (simp add: ch)
  have h: "length m < 2 ^ 64" "64 < length m" "(64 :: size_t) < 65"
    "(64 :: size_t) \<noteq> 0" "64 dvd unat (64 :: size_t)"
    by (simp_all add: m_def word_less_nat_alt)
  have ln: "of_nat (length m) = (65 :: size_t)" by (simp add: m_def)
  note t = CityHash64_total [of m 0 65]
  from t [THEN conjunct2, THEN conjunct1] h(1)
  have uq: "\<exists>!h. CityHash64 m 0 65 = Some (Some h)" by (simp add: ln)
  from t [THEN conjunct2, THEN conjunct2, THEN conjunct1] h(3)
  have c: "\<forall>st. CityHash64_seed m 0 65 = Some st \<longrightarrow> st_len st = (65 - 1) AND NOT 63
      \<and> CityHash64 m 0 65 =
          Some (map_option CityHash64_final (chunk_iter (unat (st_len st) div 64) m st))"
    by blast
  from c sd have c1: "st_len a = (65 - 1) AND NOT 63"
    and c2: "CityHash64 m 0 65 =
          Some (map_option CityHash64_final (chunk_iter (unat (st_len a) div 64) m a))"
    by blast+
  from c2 have hv: "CityHash64 m 0 65 = Some (Some 16500441696168920625)"
    unfolding n1 it by (simp add: fin)
  from t [THEN conjunct2, THEN conjunct2, THEN conjunct2, THEN conjunct2, THEN conjunct1]
  have "st_len a \<noteq> 0 \<and> 64 dvd unat (st_len a) \<longrightarrow>
      chunk_loop m a = Some (chunk_iter (unat (st_len a) div 64) m a)
      \<and> (\<forall>k stk. k < unat (st_len a) div 64 \<and> chunk_iter k m a = Some stk \<longrightarrow> st_len stk \<noteq> 0)
      \<and> (\<forall>st'. chunk_iter (unat (st_len a) div 64) m a = Some st' \<longrightarrow> st_len st' = 0)"
    by (rule spec)
  with h(4,5) have "chunk_loop m a = Some (chunk_iter (unat (st_len a) div 64) m a)"
    by (simp only: la simp_thms)
  then have lp: "chunk_loop m a = Some (Some b)" unfolding n1 it .
  from c1 have r: "(64 :: size_t) = (65 - 1) AND NOT 63" by (simp only: la)
  have u0: "unat (0 :: size_t) = unat (64 :: size_t) - 64" by simp
  from h sd r ch u0 lp hv uq show ?thesis
    unfolding m_def a_def b_def by (intro conjI)
qed

text \<open>
  Claim C9: there are two byte strings, one a proper prefix of the other, with different
  hashes: the empty string and the string of one zero byte.
\<close>

theorem CityHash64_length_sensitive:
  "\<exists>b1 b2 h1 h2. b1 \<noteq> b2 \<and> prefix b1 b2
     \<and> CityHash64 b1 0 (of_nat (length b1)) = Some (Some h1)
     \<and> CityHash64 b2 0 (of_nat (length b2)) = Some (Some h2)
     \<and> h1 \<noteq> h2"
proof -
  have "CityHash64 [] 0 (of_nat (length ([] :: buffer))) = Some (Some k2)"
    by (simp add: CityHash64_def HashLen0to16_def)
  moreover have "CityHash64 [0] 0 (of_nat (length ([0] :: buffer))) = Some (Some 13718060045003475796)"
    using CityHash64_one_zero_byte by simp
  moreover have "k2 \<noteq> 13718060045003475796" by (simp add: k2_def)
  moreover have "([] :: buffer) \<noteq> [0]" "prefix ([] :: buffer) [0]" by simp_all
  ultimately show ?thesis by blast
qed

text \<open>
  Claim C10: the overload of \<open>HashLen16\<close> with the fixed multiplier is the overload with
  an explicit multiplier, on the swapped arguments and the constant
  \<open>0x9ddfea08eb382d69\<close>.
\<close>

theorem HashLen16_overloads:
  "HashLen16 u v = HashLen16_mul v u 0x9ddfea08eb382d69"
  by (simp add: HashLen16_def HashLen16_mul_def Hash128to64_def mk_uint128_def
      Uint128Low64_def Uint128High64_def Let_def xor.commute)

end
